theory Spec2Isabelle
  imports Main "HOL-Library.Sublist" "HOL-Library.Char_ord" "HOL-Library.List_Lexorder"
    "HOL-Library.AList"
begin

section \<open>The ignore matcher (gitignore.hpp)\<close>

text \<open>
  \<^verbatim>\<open>std::vector<std::pair<bool, std::string>> rules_\<close>: the first component is the
  flag \<^verbatim>\<open>neg\<close> that \<^verbatim>\<open>addRule\<close> stores, the second the pattern.
\<close>

type_synonym rule = "bool \<times> string"

text \<open>The character set \<^verbatim>\<open>" \r\n\t"\<close> of \<^verbatim>\<open>addRule\<close>.\<close>

definition whitespace :: string where
  "whitespace = [CHR '' '', CHR 0x0D, CHR 0x0A, CHR 0x09]"

text \<open>
  \<^verbatim>\<open>std::string::find_last_not_of\<close>: the index of the last character that is not in the
  set, \<open>None\<close> for \<^verbatim>\<open>npos\<close>.
\<close>

fun find_last_not_of :: "string \<Rightarrow> string \<Rightarrow> nat option" where
  "find_last_not_of [] cs = None"
| "find_last_not_of (c # r) cs =
     (case find_last_not_of r cs of
        Some i \<Rightarrow> Some (Suc i)
      | None \<Rightarrow> if c \<in> set cs then None else Some 0)"

text \<open>
  \<^verbatim>\<open>r.erase(r.find_last_not_of(" \r\n\t") + 1)\<close>: \<^verbatim>\<open>npos + 1\<close> wraps to 0, so a line of
  whitespace only is erased from position 0.
\<close>

definition erase_trailing :: "string \<Rightarrow> string" where
  "erase_trailing rule =
     take (case find_last_not_of rule whitespace of None \<Rightarrow> 0 | Some i \<Rightarrow> Suc i) rule"

definition addRule :: "string \<Rightarrow> rule list \<Rightarrow> rule list" where
  "addRule rule rules =
     (let r = erase_trailing rule in
      if r = [] \<or> hd r = CHR ''#'' then rules
      else if hd r = CHR ''!'' then rules @ [(True, tl r)]
      else rules @ [(False, r)])"

text \<open>The constructor: \<^verbatim>\<open>for (auto& r : rules) addRule(r)\<close>, from no rules.\<close>

definition GitIgnore :: "string list \<Rightarrow> rule list" where
  "GitIgnore rules = foldl (\<lambda>rs r. addRule r rs) [] rules"

text \<open>
  \<^verbatim>\<open>std::string::find(pattern)\<close> from position 0: the first position at which the
  pattern occurs, \<open>None\<close> for \<^verbatim>\<open>npos\<close>. The empty pattern is found at 0 in every
  string, the empty one included.
\<close>

fun find_str :: "string \<Rightarrow> string \<Rightarrow> nat option" where
  "find_str [] pat = (if pat = [] then Some 0 else None)"
| "find_str (c # cs) pat =
     (if prefix pat (c # cs) then Some 0 else map_option Suc (find_str cs pat))"

definition match :: "string \<Rightarrow> string \<Rightarrow> bool" where
  "match path pattern = (find_str path pattern \<noteq> None)"

text \<open>\<^verbatim>\<open>std::replace(p.begin(), p.end(), '\\', '/')\<close>.\<close>

definition replace_backslash :: "string \<Rightarrow> string" where
  "replace_backslash p = map (\<lambda>c. if c = CHR 0x5C then CHR ''/'' else c) p"

text \<open>
  \<^verbatim>\<open>GitIgnore::isIgnored\<close>. The loop tests \<^verbatim>\<open>rule.first\<close>, the stored \<^verbatim>\<open>neg\<close> flag:
  a matching rule with the flag set makes the result true, a matching rule without it
  makes the result false.
\<close>

definition ignore_step :: "string \<Rightarrow> bool \<Rightarrow> rule \<Rightarrow> bool" where
  "ignore_step p ignored rule =
     (if fst rule \<and> match p (snd rule) then True
      else if \<not> fst rule \<and> match p (snd rule) then False
      else ignored)"

definition GitIgnore_isIgnored :: "rule list \<Rightarrow> string \<Rightarrow> bool" where
  "GitIgnore_isIgnored rules path = foldl (ignore_step (replace_backslash path)) False rules"

section \<open>The file system (std::filesystem, as sync.cpp uses it)\<close>

text \<open>
  A path below a root is the list of its components; \<open>[]\<close> is the root itself. A
  regular file has a content (its size is the length of the content) and a modification
  time, a directory has a modification time. A tree is the listing of a root: the
  entries in the order in which a recursive traversal yields them, the root included
  under the key \<open>[]\<close> when it exists. The source tree and the destination tree are two
  values: the two roots are taken to be disjoint on disk. Symbolic links, permissions
  and the refresh of a directory's modification time by the operating system, when an
  entry is added to it or removed from it, are outside the model.
\<close>

type_synonym path = "string list"

datatype node = File string int | Dir int

type_synonym tree = "(path \<times> node) list"

text \<open>\<^verbatim>\<open>filesystem_error\<close>: the failing operation and the path it failed on.\<close>

datatype fs_error = Fs_error string string

text \<open>\<^verbatim>\<open>path::string()\<close> of a relative path, components joined by \<open>/\<close>.\<close>

fun path_string :: "path \<Rightarrow> string" where
  "path_string [] = []"
| "path_string [x] = x"
| "path_string (x # y # ys) = x @ CHR ''/'' # path_string (y # ys)"

text \<open>
  \<^verbatim>\<open>root / rel\<close>: a separator is put between the two unless the root is empty or
  already ends with one.
\<close>

definition join :: "string \<Rightarrow> path \<Rightarrow> string" where
  "join root rel =
     (if rel = [] then root
      else if root = [] \<or> last root = CHR ''/'' then root @ path_string rel
      else root @ CHR ''/'' # path_string rel)"

definition fs_exists :: "tree \<Rightarrow> path \<Rightarrow> bool" where
  "fs_exists t p = (map_of t p \<noteq> None)"

definition is_directory :: "tree \<Rightarrow> path \<Rightarrow> bool" where
  "is_directory t p = (case map_of t p of Some (Dir _) \<Rightarrow> True | _ \<Rightarrow> False)"

text \<open>
  \<^verbatim>\<open>fs::create_directories(root / p)\<close>: every missing directory on the way from the
  root down to \<open>p\<close> is created (with the time of the clock); it throws when a
  component exists and is not a directory.
\<close>

fun mkdirs :: "int \<Rightarrow> string \<Rightarrow> path list \<Rightarrow> tree \<Rightarrow> fs_error + tree" where
  "mkdirs clock root [] t = Inr t"
| "mkdirs clock root (q # qs) t =
     (case map_of t q of
        None \<Rightarrow> mkdirs clock root qs (AList.update q (Dir clock) t)
      | Some (Dir _) \<Rightarrow> mkdirs clock root qs t
      | Some (File _ _) \<Rightarrow> Inl (Fs_error ''create_directories'' (join root q)))"

definition create_directories :: "int \<Rightarrow> string \<Rightarrow> tree \<Rightarrow> path \<Rightarrow> fs_error + tree" where
  "create_directories clock root t p = mkdirs clock root (prefixes p) t"

text \<open>
  \<^verbatim>\<open>fs::remove(root / p)\<close>: nothing happens when the path does not exist; a file or an
  empty directory is removed; a directory that still has an entry makes it throw.
\<close>

definition has_child :: "tree \<Rightarrow> path \<Rightarrow> bool" where
  "has_child t p = list_ex (\<lambda>e. fst e \<noteq> [] \<and> butlast (fst e) = p) t"

definition fs_remove :: "string \<Rightarrow> tree \<Rightarrow> path \<Rightarrow> fs_error + tree" where
  "fs_remove root t p =
     (case map_of t p of
        None \<Rightarrow> Inr t
      | Some (File _ _) \<Rightarrow> Inr (AList.delete p t)
      | Some (Dir _) \<Rightarrow>
          if has_child t p then Inl (Fs_error ''remove'' (join root p))
          else Inr (AList.delete p t))"

text \<open>\<^verbatim>\<open>fs::last_write_time(root / p, time)\<close>: throws when the path does not exist.\<close>

definition set_last_write_time :: "string \<Rightarrow> tree \<Rightarrow> path \<Rightarrow> int \<Rightarrow> fs_error + tree" where
  "set_last_write_time root t p time =
     (case map_of t p of
        None \<Rightarrow> Inl (Fs_error ''last_write_time'' (join root p))
      | Some (File c _) \<Rightarrow> Inr (AList.update p (File c time) t)
      | Some (Dir _) \<Rightarrow> Inr (AList.update p (Dir time) t))"

section \<open>The mirror engine (sync.cpp)\<close>

text \<open>
  \<^verbatim>\<open>syncFile\<close> calls \<^verbatim>\<open>fs::copy_file\<close> with the options
  \<^verbatim>\<open>overwrite_existing | update_existing\<close>. The two belong to one option group, and the
  C++ standard does not say what a call with both does. What the library in use does
  with a destination file that exists is therefore a parameter of the model: it
  replaces the file, or keeps it without an error, or rejects the call with an
  exception.
\<close>

datatype existing = Replace | Keep | Reject

text \<open>
  What the program reads from its surroundings: the global pointer \<^verbatim>\<open>g_ignore\<close>
  (\<open>None\<close> for \<^verbatim>\<open>nullptr\<close>), the two root paths as given on the command line, the
  destination paths at which \<^verbatim>\<open>fs::copy_file\<close> fails with an input/output or
  permission error, what the library does with an existing destination file (from the
  modification times of the source and of the destination), and the clock that stamps
  what is written.
\<close>

record env =
  g_ignore :: "rule list option"
  srcRoot :: string
  dstRoot :: string
  copy_fails :: "path \<Rightarrow> bool"
  on_existing :: "int \<Rightarrow> int \<Rightarrow> existing"
  clock :: int

text \<open>The lines of the action log, and the stream each one is written to.\<close>

datatype msg =
    COPY string string
  | DEL_D string
  | DEL_F string
  | ERROR fs_error
  | USAGE string
  | FINISHED

datatype printed = Cout msg | Cerr msg

text \<open>The state a run threads: the destination tree and what has been printed.\<close>

record state =
  fs :: tree
  out :: "printed list"

text \<open>A call returns, or an exception leaves it; the state reached is kept in both cases.\<close>

datatype outcome = Returned state | Thrown fs_error state

fun state_of :: "outcome \<Rightarrow> state" where
  "state_of (Returned s) = s"
| "state_of (Thrown e s) = s"

text \<open>A range-based \<^verbatim>\<open>for\<close> loop whose body may throw.\<close>

fun for_each :: "('a \<Rightarrow> state \<Rightarrow> outcome) \<Rightarrow> 'a list \<Rightarrow> state \<Rightarrow> outcome" where
  "for_each body [] s = Returned s"
| "for_each body (x # xs) s =
     (case body x s of
        Returned s' \<Rightarrow> for_each body xs s'
      | Thrown e s' \<Rightarrow> Thrown e s')"

text \<open>The free function \<^verbatim>\<open>isIgnored\<close> of sync.cpp.\<close>

definition isIgnored :: "env \<Rightarrow> string \<Rightarrow> bool" where
  "isIgnored env p =
     (case g_ignore env of None \<Rightarrow> False | Some rules \<Rightarrow> GitIgnore_isIgnored rules p)"

text \<open>
  \<^verbatim>\<open>fs::copy_file(src, dst, overwrite_existing | update_existing)\<close> for a source file
  with content \<open>c\<close> and modification time \<open>time\<close>. It throws where the surroundings
  make it fail, where the destination is a directory and where the directory of the
  destination is missing. A destination that does not exist is created. A destination
  file that exists is treated as the library decides. A file that is written gets the
  source's content and the time of the clock.
\<close>

definition copy_file :: "env \<Rightarrow> string \<Rightarrow> int \<Rightarrow> tree \<Rightarrow> path \<Rightarrow> fs_error + tree" where
  "copy_file env c time t p =
     (if copy_fails env p \<or> is_directory t p \<or> \<not> is_directory t (butlast p)
      then Inl (Fs_error ''copy_file'' (join (dstRoot env) p))
      else
        (case map_of t p of
           Some (File c' time') \<Rightarrow>
             (case on_existing env time time' of
                Replace \<Rightarrow> Inr (AList.update p (File c (clock env)) t)
              | Keep \<Rightarrow> Inr t
              | Reject \<Rightarrow> Inl (Fs_error ''copy_file'' (join (dstRoot env) p)))
         | _ \<Rightarrow> Inr (AList.update p (File c (clock env)) t)))"

text \<open>
  \<^verbatim>\<open>syncFile\<close>: the exception of the copy is caught and reported; the copy is reported
  whenever the call returns; nothing is handed back to the caller.
\<close>

definition syncFile :: "env \<Rightarrow> path \<Rightarrow> string \<Rightarrow> int \<Rightarrow> state \<Rightarrow> state" where
  "syncFile env rel c time s =
     (case copy_file env c time (fs s) rel of
        Inr t \<Rightarrow>
          s\<lparr>fs := t,
            out := out s @ [Cout (COPY (join (srcRoot env) rel) (join (dstRoot env) rel))]\<rparr>
      | Inl e \<Rightarrow> s\<lparr>out := out s @ [Cerr (ERROR e)]\<rparr>)"

text \<open>
  \<^verbatim>\<open>recursive_directory_iterator(root)\<close>: the entries below the root; it throws when
  the root is not a directory.
\<close>

definition entries :: "tree \<Rightarrow> tree" where
  "entries t = filter (\<lambda>e. fst e \<noteq> []) t"

text \<open>
  \<^verbatim>\<open>collectRemovals\<close>: the destination entries that are not ignored and have no
  counterpart in the source.
\<close>

definition collectRemovals :: "env \<Rightarrow> tree \<Rightarrow> tree \<Rightarrow> path list" where
  "collectRemovals env src t =
     map fst (filter (\<lambda>e. \<not> isIgnored env (path_string (fst e)) \<and> \<not> fs_exists src (fst e))
                (entries t))"

text \<open>
  \<^verbatim>\<open>std::sort\<close> with the comparison \<^verbatim>\<open>a.string() > b.string()\<close> on the absolute
  paths: descending in the order of strings.
\<close>

definition sort_descending :: "string \<Rightarrow> path list \<Rightarrow> path list" where
  "sort_descending root ps = rev (sort_key (join root) ps)"

text \<open>The body of the deletion loop of \<^verbatim>\<open>mirror\<close>.\<close>

definition remove_entry :: "env \<Rightarrow> path \<Rightarrow> state \<Rightarrow> outcome" where
  "remove_entry env p s =
     (if is_directory (fs s) p then
        (case fs_remove (dstRoot env) (fs s) p of
           Inl e \<Rightarrow> Thrown e s
         | Inr t \<Rightarrow> Returned (s\<lparr>fs := t, out := out s @ [Cout (DEL_D (join (dstRoot env) p))]\<rparr>))
      else
        (case fs_remove (dstRoot env) (fs s) p of
           Inl e \<Rightarrow> Thrown e s
         | Inr t \<Rightarrow> Returned (s\<lparr>fs := t, out := out s @ [Cout (DEL_F (join (dstRoot env) p))]\<rparr>)))"

text \<open>
  The condition of the copy:
  \<^verbatim>\<open>!exists(dst) || last_write_time(src) != last_write_time(dst) || file_size(src) != file_size(dst)\<close>,
  evaluated left to right; \<^verbatim>\<open>file_size\<close> throws on a directory.
\<close>

definition needs_copy :: "env \<Rightarrow> tree \<Rightarrow> path \<Rightarrow> string \<Rightarrow> int \<Rightarrow> fs_error + bool" where
  "needs_copy env t rel c time =
     (case map_of t rel of
        None \<Rightarrow> Inr True
      | Some (File c' time') \<Rightarrow> Inr (time \<noteq> time' \<or> length c \<noteq> length c')
      | Some (Dir time') \<Rightarrow>
          if time \<noteq> time' then Inr True
          else Inl (Fs_error ''file_size'' (join (dstRoot env) rel)))"

text \<open>The body of the copy loop of \<^verbatim>\<open>mirror\<close>, for one entry of the source.\<close>

definition copy_entry :: "env \<Rightarrow> path \<times> node \<Rightarrow> state \<Rightarrow> outcome" where
  "copy_entry env e s =
     (if isIgnored env (path_string (fst e)) then Returned s
      else
        (case snd e of
           Dir _ \<Rightarrow>
             (case create_directories (clock env) (dstRoot env) (fs s) (fst e) of
                Inl err \<Rightarrow> Thrown err s
              | Inr t \<Rightarrow> Returned (s\<lparr>fs := t\<rparr>))
         | File c time \<Rightarrow>
             (case needs_copy env (fs s) (fst e) c time of
                Inl err \<Rightarrow> Thrown err s
              | Inr False \<Rightarrow> Returned s
              | Inr True \<Rightarrow>
                  (case create_directories (clock env) (dstRoot env) (fs s) (butlast (fst e)) of
                     Inl err \<Rightarrow> Thrown err s
                   | Inr t \<Rightarrow>
                       (let s1 = syncFile env (fst e) c time (s\<lparr>fs := t\<rparr>) in
                        case set_last_write_time (dstRoot env) (fs s1) (fst e) time of
                          Inl err \<Rightarrow> Thrown err s1
                        | Inr t' \<Rightarrow> Returned (s1\<lparr>fs := t'\<rparr>))))))"

definition deletion_pass :: "env \<Rightarrow> tree \<Rightarrow> state \<Rightarrow> outcome" where
  "deletion_pass env src s =
     for_each (remove_entry env)
       (sort_descending (dstRoot env) (collectRemovals env src (fs s))) s"

definition copy_pass :: "env \<Rightarrow> tree \<Rightarrow> state \<Rightarrow> outcome" where
  "copy_pass env src s =
     (if is_directory src [] then for_each (copy_entry env) (entries src) s
      else Thrown (Fs_error ''recursive_directory_iterator'' (srcRoot env)) s)"

definition mirror :: "env \<Rightarrow> tree \<Rightarrow> state \<Rightarrow> outcome" where
  "mirror env src s =
     (case create_directories (clock env) (dstRoot env) (fs s) [] of
        Inl err \<Rightarrow> Thrown err s
      | Inr t \<Rightarrow>
          (case deletion_pass env src (s\<lparr>fs := t\<rparr>) of
             Thrown err s' \<Rightarrow> Thrown err s'
           | Returned s' \<Rightarrow> copy_pass env src s'))"

text \<open>
  The loop \<^verbatim>\<open>while (std::getline(ig, line)) rules.push_back(line)\<close> over the text
  of the rules file: the lines between newline characters; a final newline does not
  open a further line.
\<close>

fun getlines :: "string \<Rightarrow> string list" where
  "getlines [] = []"
| "getlines (c # cs) =
     (if c = CHR 0x0A then [] # getlines cs
      else (case getlines cs of [] \<Rightarrow> [[c]] | l # ls \<Rightarrow> (c # l) # ls))"

text \<open>
  How the process ends: \<^verbatim>\<open>main\<close> returns a status, or an exception that nothing
  catches terminates it.
\<close>

datatype exit = Exit int | Terminate fs_error

text \<open>
  \<^verbatim>\<open>main\<close>. \<open>argv\<close> is the whole argument vector, the program name first;
  \<open>rules_file\<close> is the text of the file that the fourth argument names, \<open>None\<close> when
  no such file exists; \<open>src\<close> is the tree under the first directory argument and the
  state holds the tree under the second. The rules are read only when there are exactly
  four arguments; the matcher and the two roots are then set for the run.
\<close>

definition load_rules :: "string list \<Rightarrow> string option \<Rightarrow> string list" where
  "load_rules argv rules_file =
     (if length argv = 4
      then (case rules_file of None \<Rightarrow> [] | Some text \<Rightarrow> getlines text)
      else [])"

definition main_env :: "env \<Rightarrow> string list \<Rightarrow> string option \<Rightarrow> env" where
  "main_env env argv rules_file =
     env\<lparr>g_ignore := Some (GitIgnore (load_rules argv rules_file)),
         srcRoot := argv ! 1, dstRoot := argv ! 2\<rparr>"

definition main :: "env \<Rightarrow> string list \<Rightarrow> string option \<Rightarrow> tree \<Rightarrow> state \<Rightarrow> exit \<times> state" where
  "main env argv rules_file src s =
     (if length argv < 3 then
        (Exit 1, s\<lparr>out := out s @ [Cerr (USAGE (case argv of [] \<Rightarrow> [] | a # _ \<Rightarrow> a))]\<rparr>)
      else
        (case mirror (main_env env argv rules_file) src s of
           Thrown err s' \<Rightarrow> (Terminate err, s')
         | Returned s' \<Rightarrow> (Exit 0, s'\<lparr>out := out s' @ [Cout FINISHED]\<rparr>)))"

section \<open>Notions the statements use\<close>

text \<open>
  A listing is that of a real tree when no path occurs twice and every entry below the
  root lies in a directory of the listing.
\<close>

definition wf_tree :: "tree \<Rightarrow> bool" where
  "wf_tree t =
     (distinct (map fst t) \<and> list_all (\<lambda>e. fst e = [] \<or> is_directory t (butlast (fst e))) t)"

text \<open>The lines that report a copy or a deletion.\<close>

fun is_action :: "printed \<Rightarrow> bool" where
  "is_action (Cout (COPY a b)) = True"
| "is_action (Cout (DEL_D a)) = True"
| "is_action (Cout (DEL_F a)) = True"
| "is_action other = False"

text \<open>
  A source entry is settled in a destination tree when a visit of the copy loop has
  nothing left to do for it: it is ignored; or it is a directory and the destination
  has the directories down to it; or it is a file and the destination holds, at its
  path, a file with the same modification time and either the same size or a copy
  that fails, or a directory with the same modification time.
\<close>

definition settled :: "env \<Rightarrow> tree \<Rightarrow> path \<times> node \<Rightarrow> bool" where
  "settled env t e =
     (isIgnored env (path_string (fst e)) \<or>
      (case snd e of
         Dir _ \<Rightarrow> list_all (is_directory t) (prefixes (fst e))
       | File c time \<Rightarrow>
           (case map_of t (fst e) of
              None \<Rightarrow> False
            | Some (Dir time') \<Rightarrow> time' = time
            | Some (File c' time') \<Rightarrow>
                time' = time \<and>
                (length c' = length c \<or>
                 (copy_fails env (fst e) \<and>
                  list_all (is_directory t) (prefixes (butlast (fst e))))))))"

text \<open>
  A destination tree is covered by the source when each of its entries below the root
  is ignored or has a counterpart in the source: the deletion pass then finds nothing.
\<close>

definition covered :: "env \<Rightarrow> tree \<Rightarrow> tree \<Rightarrow> bool" where
  "covered env src t =
     list_all (\<lambda>e. fst e = [] \<or> isIgnored env (path_string (fst e)) \<or> fs_exists src (fst e)) t"

subsection \<open>The matcher as the specification words it\<close>

text \<open>
  The construction contract: strip trailing whitespace, drop blank lines and comments,
  a leading \<open>!\<close> gives a negated rule over the remainder, any other line a non-negated
  rule over the stripped text; the kept rules stay in the order of their lines.
\<close>

definition spec_strip :: "string \<Rightarrow> string" where
  "spec_strip l = rev (dropWhile (\<lambda>c. c \<in> set whitespace) (rev l))"

definition spec_rule_of_line :: "string \<Rightarrow> rule option" where
  "spec_rule_of_line l =
     (let s = spec_strip l in
      if s = [] then None
      else if hd s = CHR ''#'' then None
      else if hd s = CHR ''!'' then Some (True, tl s)
      else Some (False, s))"

definition spec_rules :: "string list \<Rightarrow> rule list" where
  "spec_rules ls = List.map_filter spec_rule_of_line ls"

text \<open>
  The query contract: a matching non-negated rule sets the flag, a matching negated
  rule clears it.
\<close>

definition spec_isExcluded :: "rule list \<Rightarrow> string \<Rightarrow> bool" where
  "spec_isExcluded rules path =
     foldl (\<lambda>excluded (negated, pattern).
              if sublist pattern (replace_backslash path) then \<not> negated else excluded)
       False rules"

section \<open>Concrete runs\<close>

text \<open>Surroundings and trees on which the statements below are evaluated.\<close>

definition never_fails :: "path \<Rightarrow> bool" where
  "never_fails p = False"

definition always_replace :: "int \<Rightarrow> int \<Rightarrow> existing" where
  "always_replace time time' = Replace"

definition env_plain :: env where
  "env_plain = \<lparr>g_ignore = Some (GitIgnore []), srcRoot = ''S'', dstRoot = ''D'',
     copy_fails = never_fails, on_existing = always_replace, clock = 100\<rparr>"

definition env_keep :: env where
  "env_keep = \<lparr>g_ignore = Some (GitIgnore [''!keep'']), srcRoot = ''S'', dstRoot = ''D'',
     copy_fails = never_fails, on_existing = always_replace, clock = 100\<rparr>"

definition empty_root :: tree where
  "empty_root = [([], Dir 1)]"



definition dst_keep_file :: tree where
  "dst_keep_file = [([], Dir 1), ([''keep.txt''], File ''x'' 3)]"

definition env_reinclude :: env where
  "env_reinclude = \<lparr>g_ignore = Some (GitIgnore [''!x'', ''x/f'']), srcRoot = ''S'',
     dstRoot = ''D'', copy_fails = never_fails, on_existing = always_replace, clock = 100\<rparr>"

definition src_reinclude :: tree where
  "src_reinclude = [([], Dir 1), ([''x''], Dir 2), ([''x'', ''f''], File ''c'' 5)]"

definition fails_f :: "path \<Rightarrow> bool" where
  "fails_f p = (p = [''f.txt''])"

definition env_fails :: env where
  "env_fails = \<lparr>g_ignore = Some (GitIgnore []), srcRoot = ''S'', dstRoot = ''D'',
     copy_fails = fails_f, on_existing = always_replace, clock = 100\<rparr>"

definition src_two :: tree where
  "src_two = [([], Dir 1), ([''f.txt''], File ''new'' 5), ([''g.txt''], File ''g'' 6)]"

definition src_one :: tree where
  "src_one = [([], Dir 1), ([''f.txt''], File ''new'' 5)]"

definition dst_old :: tree where
  "dst_old = [([], Dir 1), ([''f.txt''], File ''old'' 3)]"

definition env_rule_keep :: env where
  "env_rule_keep = \<lparr>g_ignore = Some (GitIgnore [''keep'']), srcRoot = ''S'', dstRoot = ''D'',
     copy_fails = never_fails, on_existing = always_replace, clock = 100\<rparr>"

definition src_keep_log :: tree where
  "src_keep_log = [([], Dir 1), ([''keep.log''], File ''s'' 7)]"

definition keep_unless_newer :: "int \<Rightarrow> int \<Rightarrow> existing" where
  "keep_unless_newer time time' = (if time' < time then Replace else Keep)"

definition env_keeping :: env where
  "env_keeping = \<lparr>g_ignore = Some (GitIgnore []), srcRoot = ''S'', dstRoot = ''D'',
     copy_fails = never_fails, on_existing = keep_unless_newer, clock = 100\<rparr>"

definition src_longer :: tree where
  "src_longer = [([], Dir 1), ([''f.txt''], File ''new!'' 5)]"

definition dst_younger :: tree where
  "dst_younger = [([], Dir 1), ([''f.txt''], File ''old'' 9)]"

definition dst_mirrored :: tree where
  "dst_mirrored = [([], Dir 1), ([''a.txt''], File ''1'' 11), ([''sub''], Dir 100),
     ([''sub'', ''b.txt''], File ''bb'' 12)]"

definition src_scenario :: tree where
  "src_scenario = [([], Dir 1), ([''a.txt''], File ''1'' 11), ([''sub''], Dir 2),
     ([''sub'', ''b.txt''], File ''bb'' 12)]"

definition dst_scenario :: tree where
  "dst_scenario = [([], Dir 1), ([''a.txt''], File ''0'' 10), ([''old.txt''], File ''zz'' 3)]"

section \<open>Properties of the matcher\<close>

lemma find_last_not_of_None:
  "find_last_not_of r cs = None \<longleftrightarrow> set r \<subseteq> set cs"
  by (induction r) (auto split: option.splits)

lemma erase_trailing_Cons:
  "erase_trailing (c # r) =
     (if set (c # r) \<subseteq> set whitespace then [] else c # erase_trailing r)"
proof (cases "find_last_not_of r whitespace")
  case None
  then show ?thesis
    using find_last_not_of_None [of r whitespace]
    by (auto simp: erase_trailing_def)
next
  case (Some i)
  then have "\<not> set r \<subseteq> set whitespace"
    using find_last_not_of_None [of r whitespace] by auto
  with Some show ?thesis
    by (auto simp: erase_trailing_def)
qed

lemma spec_strip_Cons:
  "spec_strip (c # r) =
     (if set (c # r) \<subseteq> set whitespace then [] else c # spec_strip r)"
proof (cases "set r \<subseteq> set whitespace")
  case True
  then have "dropWhile (\<lambda>c. c \<in> set whitespace) (rev r) = []"
    by auto
  then show ?thesis
    using True by (auto simp: spec_strip_def dropWhile_append)
next
  case False
  then have "dropWhile (\<lambda>c. c \<in> set whitespace) (rev r) \<noteq> []"
    by auto
  then show ?thesis
    using False by (auto simp: spec_strip_def dropWhile_append)
qed

lemma erase_trailing_spec: "erase_trailing r = spec_strip r"
proof (induction r)
  case Nil
  show ?case by (simp add: erase_trailing_def spec_strip_def)
next
  case (Cons c r)
  then show ?case
    by (simp only: erase_trailing_Cons spec_strip_Cons)
qed

lemma addRule_spec:
  "addRule l rs = rs @ (case spec_rule_of_line l of None \<Rightarrow> [] | Some r \<Rightarrow> [r])"
  by (simp add: addRule_def spec_rule_of_line_def erase_trailing_spec Let_def)

lemma foldl_addRule:
  "foldl (\<lambda>rs r. addRule r rs) acc ls = acc @ List.map_filter spec_rule_of_line ls"
proof (induction ls arbitrary: acc)
  case Nil
  show ?case by (simp add: List.map_filter_simps)
next
  case (Cons l ls)
  have "foldl (\<lambda>rs r. addRule r rs) acc (l # ls) =
        addRule l acc @ List.map_filter spec_rule_of_line ls"
    by (simp only: foldl_Cons Cons.IH)
  then show ?case
    by (simp add: addRule_spec List.map_filter_simps split: option.splits)
qed

lemma find_str_sublist: "find_str p pat = None \<longleftrightarrow> \<not> sublist pat p"
proof (induction p)
  case Nil
  show ?case by simp
next
  case (Cons c cs)
  show ?case
  proof (cases pat)
    case Nil
    then show ?thesis by simp
  next
    case (Cons a as)
    with Cons.IH show ?thesis
      by (auto simp: sublist_code)
  qed
qed

lemma match_sublist: "match p pat \<longleftrightarrow> sublist pat p"
  by (simp add: match_def find_str_sublist)

text \<open>
  What the query of the code computes, in the words of the specification: the fold of
  the specification over the rules with every flag flipped.
\<close>

lemma GitIgnore_isIgnored_flipped:
  "GitIgnore_isIgnored rs path = spec_isExcluded (map (\<lambda>(n, pat). (\<not> n, pat)) rs) path"
proof -
  have "foldl (ignore_step q) b rs =
        foldl (\<lambda>excluded (negated, pattern). if sublist pattern q then \<not> negated else excluded)
          b (map (\<lambda>(n, pat). (\<not> n, pat)) rs)" for q b
    by (induction rs arbitrary: b)
       (auto simp: ignore_step_def match_sublist split: prod.splits)
  then show ?thesis
    by (simp add: GitIgnore_isIgnored_def spec_isExcluded_def)
qed

text \<open>
  C8. The rules the constructor builds from raw lines are those of the construction
  contract: each line adds the rule the contract assigns to it (none for a blank line
  or a comment, a rule flagged negated over the remainder for a line starting with
  \<open>!\<close>, an unflagged rule over the stripped text otherwise), where stripping removes
  exactly the trailing run of spaces, carriage returns, newlines and tabs, and the
  kept rules come in the order of their lines.
\<close>

theorem C8_construction_contract:
  "erase_trailing l = spec_strip l \<and>
   addRule l rs = rs @ (case spec_rule_of_line l of None \<Rightarrow> [] | Some r \<Rightarrow> [r]) \<and>
   GitIgnore ls = spec_rules ls"
proof (intro conjI)
  show "erase_trailing l = spec_strip l"
    by (rule erase_trailing_spec)
  show "addRule l rs = rs @ (case spec_rule_of_line l of None \<Rightarrow> [] | Some r \<Rightarrow> [r])"
    by (rule addRule_spec)
  show "GitIgnore ls = spec_rules ls"
    unfolding GitIgnore_def spec_rules_def foldl_addRule by simp
qed

theorem C8_construction_contract_witness:
  "GitIgnore [''build/  '', ''# note'', ''   '', ''!build/keep.txt'' @ [CHR 0x0D], ''tmp'']
     = [(False, ''build/''), (True, ''build/keep.txt''), (False, ''tmp'')]"
  using C8_construction_contract [of "[]" "[]"
      "[''build/  '', ''# note'', ''   '', ''!build/keep.txt'' @ [CHR 0x0D], ''tmp'']"]
  by (simp add: spec_rules_def spec_rule_of_line_def spec_strip_def whitespace_def
      List.map_filter_simps)

text \<open>
  C10. A line that is \<open>!\<close> followed only by whitespace is kept as a rule with the
  negated flag and the empty pattern, and the empty pattern matches every path.
\<close>

theorem C10_bare_negation_rule:
  assumes "set ws \<subseteq> set whitespace"
  shows "addRule (CHR ''!'' # ws) rs = rs @ [(True, [])] \<and> match (replace_backslash path) []"
proof -
  have "erase_trailing (CHR ''!'' # ws) = [CHR ''!'']"
  proof -
    have "find_last_not_of ws whitespace = None"
      using assms by (simp add: find_last_not_of_None)
    then have "erase_trailing ws = []"
      by (simp add: erase_trailing_def)
    moreover have "CHR ''!'' \<notin> set whitespace"
      by (simp add: whitespace_def)
    ultimately show ?thesis
      by (simp add: erase_trailing_Cons)
  qed
  moreover have "match q []" for q
    by (cases q) (simp_all add: match_def)
  ultimately show ?thesis
    by (simp add: addRule_def)
qed

theorem C10_bare_negation_rule_witness:
  "addRule (''! '' @ [CHR 0x09]) [(False, ''tmp'')] = [(False, ''tmp''), (True, [])] \<and>
   match (replace_backslash ''a/tmp/file.txt'') []"
  using C10_bare_negation_rule [of "'' '' @ [CHR 0x09]" "[(False, ''tmp'')]" "''a/tmp/file.txt''"]
  by (simp add: whitespace_def)

text \<open>
  C1. With the single rule line \<open>tmp\<close> the constructor stores the rule without the
  negated flag, and the query answers false on \<open>a/tmp/file.txt\<close> and on
  \<open>tmpfile.txt\<close>, although the pattern occurs in both: the loop of the query sets its
  result from the stored flag, so an unflagged matching rule clears it.
\<close>

theorem C1_single_rule_tmp:
  "GitIgnore [''tmp''] = [(False, ''tmp'')] \<and>
   match ''a/tmp/file.txt'' ''tmp'' \<and> match ''tmpfile.txt'' ''tmp'' \<and>
   GitIgnore_isIgnored (GitIgnore [''tmp'']) ''a/tmp/file.txt'' = False \<and>
   GitIgnore_isIgnored (GitIgnore [''tmp'']) ''tmpfile.txt'' = False \<and>
   spec_isExcluded (GitIgnore [''tmp'']) ''a/tmp/file.txt'' = True \<and>
   spec_isExcluded (GitIgnore [''tmp'']) ''tmpfile.txt'' = True"
  by (simp add: GitIgnore_def addRule_def erase_trailing_def whitespace_def
      GitIgnore_isIgnored_def ignore_step_def match_def replace_backslash_def
      spec_isExcluded_def sublist_code)

section \<open>Evaluating a run on concrete trees\<close>

text \<open>The definitions that a run on concrete trees unfolds.\<close>

lemmas run_defs =
  mirror_def deletion_pass_def copy_pass_def copy_entry_def needs_copy_def syncFile_def
  copy_file_def set_last_write_time_def create_directories_def remove_entry_def fs_remove_def
  has_child_def sort_descending_def collectRemovals_def entries_def isIgnored_def
  is_directory_def fs_exists_def join_def
  GitIgnore_def addRule_def erase_trailing_def whitespace_def
  GitIgnore_isIgnored_def ignore_step_def match_def replace_backslash_def

section \<open>The deletion pass\<close>

lemma for_each_invariant:
  assumes "\<And>x s. x \<in> set xs \<Longrightarrow> P s \<Longrightarrow> P (state_of (body x s))" and "P s"
  shows "P (state_of (for_each body xs s))"
  using assms
proof (induction xs arbitrary: s)
  case Nil
  then show ?case by simp
next
  case (Cons x xs)
  have step: "P (state_of (body x s))"
    using Cons.prems by simp
  show ?case
  proof (cases "body x s")
    case (Returned s')
    with step Cons show ?thesis by simp
  next
    case (Thrown e s')
    with step show ?thesis by simp
  qed
qed





lemma set_sort_descending: "set (sort_descending root ps) = set ps"
  by (simp add: sort_descending_def)



lemma fs_remove_result: "fs_remove root t p = Inr t' \<Longrightarrow> t' = AList.delete p t"
  by (auto simp: fs_remove_def map_of_eq_None_iff split: option.splits node.splits if_splits)



lemma remove_entry_result:
  "remove_entry env p s = Returned s' \<Longrightarrow> fs s' = AList.delete p (fs s)"
  by (auto simp: remove_entry_def dest: fs_remove_result split: if_splits sum.splits)

lemma remove_entry_thrown: "remove_entry env p s = Thrown e s' \<Longrightarrow> s' = s"
  by (auto simp: remove_entry_def split: if_splits sum.splits)

lemma delete_filter: "AList.delete p t = filter (\<lambda>e. fst e \<noteq> p) t"
  by (induction t) auto


lemma wf_tree_parent:
  "wf_tree t \<Longrightarrow> fs_exists t q \<Longrightarrow> q \<noteq> [] \<Longrightarrow> is_directory t (butlast q)"
proof -
  assume wf: "wf_tree t" and q: "fs_exists t q" "q \<noteq> []"
  from q(1) obtain n where "(q, n) \<in> set t"
    by (auto simp: fs_exists_def dest: map_of_SomeD)
  with wf q(2) show ?thesis
    by (auto simp: wf_tree_def list_all_iff)
qed

lemma is_directory_exists: "is_directory t p \<Longrightarrow> fs_exists t p"
  by (auto simp: is_directory_def fs_exists_def split: option.splits)

lemma collectRemovals_iff:
  "p \<in> set (collectRemovals env src t) \<longleftrightarrow>
     p \<in> fst ` set t \<and> p \<noteq> [] \<and> \<not> isIgnored env (path_string p) \<and> \<not> fs_exists src p"
  by (auto simp: collectRemovals_def entries_def)





section \<open>Creating directories\<close>

lemma mkdirs_keeps:
  "mkdirs c r qs t = Inr t' \<Longrightarrow> map_of t q = Some n \<Longrightarrow> map_of t' q = Some n"
proof (induction qs arbitrary: t)
  case Nil
  then show ?case by simp
next
  case (Cons a qs)
  show ?case
  proof (cases "map_of t a")
    case None
    with Cons.prems have run: "mkdirs c r qs (AList.update a (Dir c) t) = Inr t'"
      and "q \<noteq> a"
      by auto
    from \<open>q \<noteq> a\<close> Cons.prems(2) have "map_of (AList.update a (Dir c) t) q = Some n"
      by (simp add: update_conv')
    with run show ?thesis
      by (rule Cons.IH)
  next
    case (Some m)
    with Cons.prems have "mkdirs c r qs t = Inr t'"
      by (cases m) simp_all
    then show ?thesis
      using Cons.prems(2) by (rule Cons.IH)
  qed
qed

lemma mkdirs_creates:
  "mkdirs c r qs t = Inr t' \<Longrightarrow> map_of t q = None \<Longrightarrow>
     (q \<notin> set qs \<and> map_of t' q = None) \<or> (q \<in> set qs \<and> map_of t' q = Some (Dir c))"
proof (induction qs arbitrary: t)
  case Nil
  then show ?case by simp
next
  case (Cons a qs)
  show ?case
  proof (cases "map_of t a")
    case None
    with Cons.prems have run: "mkdirs c r qs (AList.update a (Dir c) t) = Inr t'"
      by simp
    show ?thesis
    proof (cases "q = a")
      case True
      have "map_of (AList.update a (Dir c) t) q = Some (Dir c)"
        by (simp add: True update_conv')
      with run have "map_of t' q = Some (Dir c)"
        by (rule mkdirs_keeps)
      with True show ?thesis by simp
    next
      case False
      with Cons.prems(2) have "map_of (AList.update a (Dir c) t) q = None"
        by (simp add: update_conv')
      with run have "(q \<notin> set qs \<and> map_of t' q = None) \<or>
                     (q \<in> set qs \<and> map_of t' q = Some (Dir c))"
        by (rule Cons.IH)
      with False show ?thesis by auto
    qed
  next
    case (Some m)
    with Cons.prems have run: "mkdirs c r qs t = Inr t'" and "q \<noteq> a"
      by (cases m; auto)+
    from run Cons.prems(2) have "(q \<notin> set qs \<and> map_of t' q = None) \<or>
                     (q \<in> set qs \<and> map_of t' q = Some (Dir c))"
      by (rule Cons.IH)
    with \<open>q \<noteq> a\<close> show ?thesis by auto
  qed
qed

lemma is_directory_iff: "is_directory t p \<longleftrightarrow> (\<exists>m. map_of t p = Some (Dir m))"
  by (auto simp: is_directory_def split: option.splits node.splits)

lemma mkdirs_keeps_dir:
  "mkdirs c r qs t = Inr t' \<Longrightarrow> is_directory t q \<Longrightarrow> is_directory t' q"
  by (auto simp: is_directory_iff dest: mkdirs_keeps)

lemma mkdirs_post:
  "mkdirs c r qs t = Inr t' \<Longrightarrow> q \<in> set qs \<Longrightarrow> is_directory t' q"
proof (induction qs arbitrary: t)
  case Nil
  then show ?case by simp
next
  case (Cons a qs)
  show ?case
  proof (cases "map_of t a")
    case None
    with Cons.prems have run: "mkdirs c r qs (AList.update a (Dir c) t) = Inr t'"
      by simp
    have "is_directory (AList.update a (Dir c) t) a"
      by (simp add: is_directory_iff update_conv')
    with run have "is_directory t' a"
      by (rule mkdirs_keeps_dir)
    with Cons.IH [OF run] Cons.prems(2) show ?thesis
      by auto
  next
    case (Some m)
    with Cons.prems have run: "mkdirs c r qs t = Inr t'" and dir: "is_directory t a"
      by (cases m; auto simp: is_directory_iff)+
    from run dir have "is_directory t' a"
      by (rule mkdirs_keeps_dir)
    with Cons.IH [OF run] Cons.prems(2) show ?thesis
      by auto
  qed
qed

lemma mkdirs_noop: "\<forall>q \<in> set qs. is_directory t q \<Longrightarrow> mkdirs c r qs t = Inr t"
  by (induction qs) (auto simp: is_directory_iff)

lemma mkdirs_succeeds:
  "\<forall>q \<in> set qs. map_of t q = None \<or> is_directory t q \<Longrightarrow> \<exists>t'. mkdirs c r qs t = Inr t'"
proof (induction qs arbitrary: t)
  case Nil
  show ?case by simp
next
  case (Cons a qs)
  show ?case
  proof (cases "map_of t a")
    case None
    have "\<forall>q \<in> set qs. map_of (AList.update a (Dir c) t) q = None \<or>
             is_directory (AList.update a (Dir c) t) q"
      using Cons.prems by (auto simp: update_conv' is_directory_iff)
    from Cons.IH [OF this] None show ?thesis
      by simp
  next
    case (Some m)
    with Cons.prems obtain k where "m = Dir k"
      by (auto simp: is_directory_iff)
    with Some Cons.IH [of t] Cons.prems show ?thesis
      by simp
  qed
qed

section \<open>The copy pass, entry by entry\<close>

lemma create_directories_other:
  assumes "create_directories c r t d = Inr t'"
  shows "map_of t' p = map_of t p \<or>
         (map_of t p = None \<and> map_of t' p = Some (Dir c) \<and> prefix p d)"
proof (cases "map_of t p")
  case None
  with assms mkdirs_creates [of c r "prefixes d" t t' p] show ?thesis
    by (auto simp: create_directories_def)
next
  case (Some n)
  with assms mkdirs_keeps [of c r "prefixes d" t t' p n] show ?thesis
    by (simp add: create_directories_def)
qed

lemma syncFile_other:
  "p \<noteq> rel \<Longrightarrow> map_of (fs (syncFile env rel c time s)) p = map_of (fs s) p"
  by (auto simp: syncFile_def copy_file_def update_conv'
      split: sum.splits option.splits node.splits existing.splits if_splits)

lemma set_last_write_time_other:
  "set_last_write_time r t rel time = Inr t' \<Longrightarrow> p \<noteq> rel \<Longrightarrow> map_of t' p = map_of t p"
  by (auto simp: set_last_write_time_def update_conv' split: option.splits node.splits)

text \<open>
  What the visit of one source entry does to the destination at any other path:
  nothing, or it creates the path as a directory on the way down to the entry.
\<close>

lemma copy_entry_other:
  assumes "fst e \<noteq> p"
  shows "map_of (fs (state_of (copy_entry env e s))) p = map_of (fs s) p \<or>
         (map_of (fs s) p = None \<and>
          map_of (fs (state_of (copy_entry env e s))) p = Some (Dir (clock env)) \<and>
          prefix p (fst e) \<and> \<not> isIgnored env (path_string (fst e)))"
proof (cases "isIgnored env (path_string (fst e))")
  case True
  then show ?thesis by (simp add: copy_entry_def)
next
  case False
  show ?thesis
  proof (cases "snd e")
    case (Dir m)
    show ?thesis
    proof (cases "create_directories (clock env) (dstRoot env) (fs s) (fst e)")
      case (Inl err)
      with False Dir show ?thesis by (simp add: copy_entry_def)
    next
      case (Inr t)
      with False Dir create_directories_other [OF Inr, of p] show ?thesis
        by (auto simp: copy_entry_def)
    qed
  next
    case (File c time)
    show ?thesis
    proof (cases "needs_copy env (fs s) (fst e) c time")
      case (Inl err)
      with False File show ?thesis by (simp add: copy_entry_def)
    next
      case (Inr b)
      show ?thesis
      proof (cases b)
        case False
        with \<open>\<not> isIgnored env (path_string (fst e))\<close> File Inr show ?thesis
          by (simp add: copy_entry_def)
      next
        case True
        show ?thesis
        proof (cases "create_directories (clock env) (dstRoot env) (fs s) (butlast (fst e))")
          case (Inl err)
          with False File Inr True show ?thesis by (simp add: copy_entry_def)
        next
          case mk: (Inr t)
          define s1 where "s1 = syncFile env (fst e) c time (s\<lparr>fs := t\<rparr>)"
          have s1: "map_of (fs s1) p = map_of t p"
            using assms by (simp add: s1_def syncFile_other)
          have final: "map_of (fs (state_of (copy_entry env e s))) p = map_of t p"
          proof (cases "set_last_write_time (dstRoot env) (fs s1) (fst e) time")
            case (Inl err)
            with False File Inr True mk s1 show ?thesis
              by (simp add: copy_entry_def s1_def [symmetric])
          next
            case lw: (Inr t')
            from assms have "p \<noteq> fst e"
              by auto
            with lw have "map_of t' p = map_of (fs s1) p"
              by (rule set_last_write_time_other)
            with lw False File Inr True mk s1 show ?thesis
              by (simp add: copy_entry_def s1_def [symmetric])
          qed
          have "prefix p (fst e)" if "prefix p (butlast (fst e))"
            using that by (metis prefix_order.order_trans prefixeq_butlast)
          with create_directories_other [OF mk, of p] final False show ?thesis
            by auto
        qed
      qed
    qed
  qed
qed

lemma remove_entry_other:
  "x \<noteq> p \<Longrightarrow> map_of (fs (state_of (remove_entry env x s))) p = map_of (fs s) p"
  by (auto simp: remove_entry_def fs_remove_def delete_conv'
      split: option.splits node.splits if_splits)

lemma deletion_pass_other:
  assumes "p \<notin> set (collectRemovals env src (fs s))"
  shows "map_of (fs (state_of (deletion_pass env src s))) p = map_of (fs s) p"
  unfolding deletion_pass_def
proof (rule for_each_invariant [where P = "\<lambda>s' :: state. map_of (fs s') p = map_of (fs s) p"])
  fix x and s' :: state
  assume "x \<in> set (sort_descending (dstRoot env) (collectRemovals env src (fs s)))"
    and inv: "map_of (fs s') p = map_of (fs s) p"
  with assms have "x \<noteq> p"
    by (auto simp: sort_descending_def)
  then show "map_of (fs (state_of (remove_entry env x s'))) p = map_of (fs s) p"
    by (simp add: remove_entry_other inv)
qed simp

lemma copy_pass_excluded:
  assumes "isIgnored env (path_string p)"
  shows "map_of (fs (state_of (copy_pass env src s))) p = map_of (fs s) p \<or>
         (map_of (fs s) p = None \<and>
          map_of (fs (state_of (copy_pass env src s))) p = Some (Dir (clock env)))"
proof (cases "is_directory src []")
  case False
  then show ?thesis by (simp add: copy_pass_def)
next
  case True
  have "map_of (fs (state_of (for_each (copy_entry env) (entries src) s))) p = map_of (fs s) p \<or>
        (map_of (fs s) p = None \<and>
         map_of (fs (state_of (for_each (copy_entry env) (entries src) s))) p
           = Some (Dir (clock env)))"
  proof (rule for_each_invariant
      [where P = "\<lambda>s' :: state. map_of (fs s') p = map_of (fs s) p \<or>
                       (map_of (fs s) p = None \<and> map_of (fs s') p = Some (Dir (clock env)))"])
    fix e and s' :: state
    assume inv: "map_of (fs s') p = map_of (fs s) p \<or>
                 (map_of (fs s) p = None \<and> map_of (fs s') p = Some (Dir (clock env)))"
    show "map_of (fs (state_of (copy_entry env e s'))) p = map_of (fs s) p \<or>
          (map_of (fs s) p = None \<and>
           map_of (fs (state_of (copy_entry env e s'))) p = Some (Dir (clock env)))"
    proof (cases "fst e = p")
      case True
      with assms inv show ?thesis
        by (simp add: copy_entry_def)
    next
      case False
      from copy_entry_other [OF False, of env s'] inv show ?thesis
        by auto
    qed
  qed simp
  with True show ?thesis
    by (simp add: copy_pass_def)
qed

lemma not_prefix_butlast: "rel \<noteq> [] \<Longrightarrow> \<not> prefix rel (butlast rel)"
proof
  assume "rel \<noteq> []" and "prefix rel (butlast rel)"
  then have "length rel \<le> length (butlast rel)"
    by (intro prefix_length_le)
  moreover have "length (butlast rel) < length rel"
    using \<open>rel \<noteq> []\<close> by (cases rel) simp_all
  ultimately show False
    by linarith
qed

lemma create_directories_parent:
  assumes "rel \<noteq> []" and "create_directories c r t (butlast rel) = Inr t'"
  shows "map_of t' rel = map_of t rel \<and> is_directory t' (butlast rel)"
proof
  show "map_of t' rel = map_of t rel"
    using create_directories_other [OF assms(2), of rel] not_prefix_butlast [OF assms(1)]
    by auto
  show "is_directory t' (butlast rel)"
    using assms(2) unfolding create_directories_def
    by (rule mkdirs_post) simp
qed

text \<open>
  One visit of the copy loop, for a source file that is not excluded, with nothing in
  the way in the destination (no directory at its path, no file among the directories
  above it) and a call of \<^verbatim>\<open>fs::copy_file\<close> that neither fails nor is rejected:
  \<^verbatim>\<open>syncFile\<close> is called, and reports a copy, exactly when the destination file is
  absent, or its modification time differs from the source's, or its size does. The
  destination file then carries the source's modification time; it holds the source's
  content when it did not exist before or when the library replaces existing files.
  When time and size are both equal nothing at all changes.
\<close>

lemma copy_entry_iff_stale:
  assumes "\<not> isIgnored env (path_string rel)" and "rel \<noteq> []" and "\<not> copy_fails env rel"
    and "\<not> is_directory (fs s) rel"
    and "\<forall>q \<in> set (prefixes (butlast rel)). map_of (fs s) q = None \<or> is_directory (fs s) q"
    and "\<forall>time'. on_existing env time time' \<noteq> Reject"
  shows "\<exists>s'. copy_entry env (rel, File c time) s = Returned s' \<and>
           (if map_of (fs s) rel = None \<or>
               (\<exists>c' time'. map_of (fs s) rel = Some (File c' time') \<and>
                            (time \<noteq> time' \<or> length c \<noteq> length c'))
            then (\<exists>c''. map_of (fs s') rel = Some (File c'' time) \<and>
                        (map_of (fs s) rel = None \<or>
                         (\<forall>time'. on_existing env time time' = Replace) \<longrightarrow> c'' = c)) \<and>
                 out s' = out s @ [Cout (COPY (join (srcRoot env) rel) (join (dstRoot env) rel))]
            else s' = s)"
proof -
  let ?stale = "map_of (fs s) rel = None \<or>
               (\<exists>c' time'. map_of (fs s) rel = Some (File c' time') \<and>
                            (time \<noteq> time' \<or> length c \<noteq> length c'))"
  have check: "needs_copy env (fs s) rel c time = Inr ?stale"
    using assms(4)
    by (auto simp: needs_copy_def is_directory_iff split: option.splits node.splits)
  show ?thesis
  proof (cases ?stale)
    case False
    with check have "needs_copy env (fs s) rel c time = Inr False"
      by simp
    with assms(1) have "copy_entry env (rel, File c time) s = Returned s"
      by (simp add: copy_entry_def)
    with False show ?thesis
      by simp
  next
    case True
    with check have check': "needs_copy env (fs s) rel c time = Inr True"
      by simp
    obtain t where mk: "create_directories (clock env) (dstRoot env) (fs s) (butlast rel) = Inr t"
      using mkdirs_succeeds [OF assms(5)] by (auto simp: create_directories_def)
    from create_directories_parent [OF assms(2) mk]
    have same: "map_of t rel = map_of (fs s) rel" and parent: "is_directory t (butlast rel)"
      by simp_all
    from same assms(4) have nodir: "\<not> is_directory t rel"
      by (simp add: is_directory_def)
    have "\<exists>t2 c'' tm. copy_file env c time t rel = Inr t2 \<and>
            map_of t2 rel = Some (File c'' tm) \<and>
            (map_of (fs s) rel = None \<or> (\<forall>time'. on_existing env time time' = Replace)
               \<longrightarrow> c'' = c)"
    proof (cases "map_of t rel")
      case None
      with parent nodir assms(3)
      have "copy_file env c time t rel = Inr (AList.update rel (File c (clock env)) t)"
        by (simp add: copy_file_def)
      then show ?thesis
        by (simp add: update_conv')
    next
      case (Some n)
      with nodir obtain c' time' where n: "n = File c' time'"
        by (cases n) (simp_all add: is_directory_def)
      show ?thesis
      proof (cases "on_existing env time time'")
        case Replace
        with Some n parent nodir assms(3)
        have "copy_file env c time t rel = Inr (AList.update rel (File c (clock env)) t)"
          by (simp add: copy_file_def)
        then show ?thesis
          by (simp add: update_conv')
      next
        case Keep
        with Some n parent nodir assms(3) have "copy_file env c time t rel = Inr t"
          by (simp add: copy_file_def)
        with Some n same Keep show ?thesis
          by auto
      next
        case Reject
        with assms(6) show ?thesis
          by simp
      qed
    qed
    then obtain t2 c'' tm where copy: "copy_file env c time t rel = Inr t2"
      and t2: "map_of t2 rel = Some (File c'' tm)"
      and content: "map_of (fs s) rel = None \<or> (\<forall>time'. on_existing env time time' = Replace)
                     \<longrightarrow> c'' = c"
      by blast
    define s1 where "s1 = syncFile env rel c time (s\<lparr>fs := t\<rparr>)"
    have s1: "fs s1 = t2"
      "out s1 = out s @ [Cout (COPY (join (srcRoot env) rel) (join (dstRoot env) rel))]"
      by (simp_all add: s1_def syncFile_def copy)
    have stamp: "set_last_write_time (dstRoot env) (fs s1) rel time =
                   Inr (AList.update rel (File c'' time) (fs s1))"
      by (simp add: set_last_write_time_def s1(1) t2)
    have "copy_entry env (rel, File c time) s =
            Returned (s1\<lparr>fs := AList.update rel (File c'' time) (fs s1)\<rparr>)"
      using assms(1) check' mk stamp
      by (simp add: copy_entry_def s1_def [symmetric])
    with True s1(2) content show ?thesis
      by (simp add: update_conv')
  qed
qed

lemma copy_entry_iff_stale_scenario:
  "copy_entry env_plain ([''a.txt''], File ''1'' 11) \<lparr>fs = dst_scenario, out = []\<rparr> =
     Returned \<lparr>fs = [([], Dir 1), ([''a.txt''], File ''1'' 11), ([''old.txt''], File ''zz'' 3)],
               out = [Cout (COPY ''S/a.txt'' ''D/a.txt'')]\<rparr> \<and>
   copy_entry env_plain ([''a.txt''], File ''1'' 11)
     \<lparr>fs = [([], Dir 1), ([''a.txt''], File ''0'' 11)], out = []\<rparr> =
     Returned \<lparr>fs = [([], Dir 1), ([''a.txt''], File ''0'' 11)], out = []\<rparr>"
  using copy_entry_iff_stale [where env = env_plain and rel = "[''a.txt'']" and c = "''1''"
      and time = 11 and s = "\<lparr>fs = dst_scenario, out = []\<rparr>"]
  by (simp add: env_plain_def never_fails_def always_replace_def dst_scenario_def run_defs)

text \<open>
  C3. Two runs of the copy pass in which a stale file is not copied. In the first the
  library lets \<^verbatim>\<open>update_existing\<close> prevail, as it may with the option pair that
  \<^verbatim>\<open>syncFile\<close> passes: the destination file differs from its source in time and in
  size and is not older; the pass reports a copy and sets the destination's time to
  the source's, but the destination keeps its old content. In the second the copy of
  the first file fails and the pass ends with the exception of the call that sets the
  time; the second file, absent from the destination and not excluded, is never
  copied.
\<close>

theorem C3_stale_file_not_copied:
  "map_of src_longer [''f.txt''] = Some (File ''new!'' 5) \<and>
   map_of dst_younger [''f.txt''] = Some (File ''old'' 9) \<and>
   copy_pass env_keeping src_longer \<lparr>fs = dst_younger, out = []\<rparr> =
     Returned \<lparr>fs = [([], Dir 1), ([''f.txt''], File ''old'' 5)],
       out = [Cout (COPY ''S/f.txt'' ''D/f.txt'')]\<rparr> \<and>
   \<not> isIgnored env_fails (path_string [''g.txt'']) \<and>
   map_of src_two [''g.txt''] = Some (File ''g'' 6) \<and>
   map_of empty_root [''g.txt''] = None \<and>
   copy_pass env_fails src_two \<lparr>fs = empty_root, out = []\<rparr> =
     Thrown (Fs_error ''last_write_time'' ''D/f.txt'')
       \<lparr>fs = empty_root, out = [Cerr (ERROR (Fs_error ''copy_file'' ''D/f.txt''))]\<rparr>"
  by (simp add: env_keeping_def env_fails_def never_fails_def fails_f_def always_replace_def
      keep_unless_newer_def src_longer_def dst_younger_def src_two_def empty_root_def run_defs)

section \<open>Excluded paths\<close>

text \<open>
  For a path on which the query of the matcher answers true, a run of \<^verbatim>\<open>mirror\<close>,
  whether it returns or throws, leaves an entry that the destination holds at that
  path exactly as it is: it is neither deleted, even when the source has no such
  entry, nor overwritten. Where the destination holds nothing at that path, nothing
  is copied to it: it stays absent or becomes a fresh directory.
\<close>

lemma ignored_entry_kept:
  assumes "isIgnored env (path_string p)"
  shows "(\<forall>n. map_of (fs s) p = Some n \<longrightarrow>
            map_of (fs (state_of (mirror env src s))) p = Some n) \<and>
         (map_of (fs s) p = None \<longrightarrow>
            map_of (fs (state_of (mirror env src s))) p = None \<or>
            map_of (fs (state_of (mirror env src s))) p = Some (Dir (clock env)))"
proof -
  have "map_of (fs (state_of (mirror env src s))) p = map_of (fs s) p \<or>
        (map_of (fs s) p = None \<and>
         map_of (fs (state_of (mirror env src s))) p = Some (Dir (clock env)))"
  proof (cases "create_directories (clock env) (dstRoot env) (fs s) []")
    case (Inl err)
    then show ?thesis by (simp add: mirror_def)
  next
    case (Inr t)
    define s0 where "s0 = s\<lparr>fs := t\<rparr>"
    have first: "map_of (fs s0) p = map_of (fs s) p \<or>
                 (map_of (fs s) p = None \<and> map_of (fs s0) p = Some (Dir (clock env)))"
      using create_directories_other [OF Inr, of p] by (auto simp: s0_def)
    have "p \<notin> set (collectRemovals env src (fs s0))"
      using assms by (auto simp: collectRemovals_def)
    then have second: "map_of (fs (state_of (deletion_pass env src s0))) p = map_of (fs s0) p"
      by (rule deletion_pass_other)
    show ?thesis
    proof (cases "deletion_pass env src s0")
      case (Thrown err s')
      with Inr first second show ?thesis
        by (auto simp: mirror_def s0_def [symmetric])
    next
      case (Returned s')
      with second have "map_of (fs s') p = map_of (fs s0) p"
        by simp
      with copy_pass_excluded [OF assms, of src s'] Inr Returned first show ?thesis
        by (auto simp: mirror_def s0_def [symmetric])
    qed
  qed
  then show ?thesis by auto
qed

lemma ignored_entry_kept_scenario:
  "isIgnored env_keep (path_string [''keep.txt'']) \<and>
   \<not> fs_exists empty_root [''keep.txt''] \<and>
   mirror env_keep empty_root \<lparr>fs = dst_keep_file, out = []\<rparr> =
     Returned \<lparr>fs = dst_keep_file, out = []\<rparr> \<and>
   map_of (fs (state_of (mirror env_keep empty_root \<lparr>fs = dst_keep_file, out = []\<rparr>)))
     [''keep.txt''] = Some (File ''x'' 3)"
  using ignored_entry_kept [of env_keep "[''keep.txt'']" "\<lparr>fs = dst_keep_file, out = []\<rparr>"
      empty_root]
  by (simp add: env_keep_def never_fails_def always_replace_def dst_keep_file_def empty_root_def run_defs)

text \<open>
  Such a path at which the destination holds nothing is not always left as it is:
  where the query answers false on a source file beneath it, the directory is created
  as the parent of the copied file.
\<close>

lemma ignored_parent_created:
  "isIgnored env_reinclude (path_string [''x'']) \<and>
   map_of empty_root [''x''] = None \<and>
   map_of (fs (state_of (mirror env_reinclude src_reinclude \<lparr>fs = empty_root, out = []\<rparr>)))
     [''x''] = Some (Dir 100)"
  by (simp add: env_reinclude_def never_fails_def always_replace_def src_reinclude_def
      empty_root_def run_defs)

text \<open>
  C2. The query does not answer true on the paths that a non-negated rule excludes.
  With the single rule line \<open>keep\<close>, the paths \<open>keep.txt\<close> and \<open>keep.log\<close> match an
  active non-negated rule that nothing overrides, and the query of the specification
  excludes both; the query of the code answers false on both. The run deletes
  \<open>keep.txt\<close>, which only the destination holds, and copies \<open>keep.log\<close> from the
  source.
\<close>

theorem C2_excluded_path_deleted_and_copied:
  "GitIgnore [''keep''] = [(False, ''keep'')] \<and>
   spec_isExcluded (GitIgnore [''keep'']) (path_string [''keep.txt'']) \<and>
   spec_isExcluded (GitIgnore [''keep'']) (path_string [''keep.log'']) \<and>
   \<not> isIgnored env_rule_keep (path_string [''keep.txt'']) \<and>
   \<not> isIgnored env_rule_keep (path_string [''keep.log'']) \<and>
   mirror env_rule_keep src_keep_log \<lparr>fs = dst_keep_file, out = []\<rparr> =
     Returned \<lparr>fs = [([], Dir 1), ([''keep.log''], File ''s'' 7)],
       out = [Cout (DEL_F ''D/keep.txt''), Cout (COPY ''S/keep.log'' ''D/keep.log'')]\<rparr>"
  by (simp add: env_rule_keep_def never_fails_def always_replace_def src_keep_log_def
      dst_keep_file_def spec_isExcluded_def sublist_code run_defs)


section \<open>Running twice\<close>

lemma wf_tree_prefix:
  assumes "wf_tree t"
  shows "fs_exists t q \<Longrightarrow> prefix p q \<Longrightarrow> fs_exists t p"
proof (induction q rule: rev_induct)
  case Nil
  then show ?case by simp
next
  case (snoc x xs)
  show ?case
  proof (cases "p = xs @ [x]")
    case True
    with snoc.prems show ?thesis by simp
  next
    case False
    with snoc.prems(2) have "prefix p xs"
      by (simp add: prefix_snoc)
    moreover have "fs_exists t xs"
      using wf_tree_parent [OF assms snoc.prems(1)] by (simp add: is_directory_exists)
    ultimately show ?thesis
      using snoc.IH by simp
  qed
qed

lemma remove_all_result:
  "for_each (remove_entry env) L s = Returned s' \<Longrightarrow>
     fs s' = filter (\<lambda>e. fst e \<notin> set L) (fs s)"
proof (induction L arbitrary: s)
  case Nil
  then show ?case by simp
next
  case (Cons p L)
  from Cons.prems obtain s1 where s1: "remove_entry env p s = Returned s1"
    and rest: "for_each (remove_entry env) L s1 = Returned s'"
    by (auto split: outcome.splits)
  from s1 have "fs s1 = filter (\<lambda>e. fst e \<noteq> p) (fs s)"
    by (simp add: remove_entry_result delete_filter)
  with Cons.IH [OF rest] show ?case
    by simp
qed

text \<open>A visit never turns a directory of the destination into something else.\<close>

lemma copy_entry_keeps_dir:
  assumes "is_directory (fs s) p"
  shows "is_directory (fs (state_of (copy_entry env e s))) p"
proof (cases "fst e = p")
  case False
  with copy_entry_other [OF False, of env s] assms show ?thesis
    by (auto simp: is_directory_iff)
next
  case True
  show ?thesis
  proof (cases "isIgnored env (path_string (fst e))")
    case True
    with assms show ?thesis by (simp add: copy_entry_def)
  next
    case False
    show ?thesis
    proof (cases "snd e")
      case (Dir m)
      with False assms show ?thesis
        by (auto simp: copy_entry_def create_directories_def
            dest: mkdirs_keeps_dir split: sum.splits)
    next
      case (File c time)
      have sync: "syncFile env p c time (s'\<lparr>fs := t\<rparr>) =
                    s'\<lparr>fs := t, out := out s' @ [Cerr (ERROR (Fs_error ''copy_file'' (join (dstRoot env) p)))]\<rparr>"
        if "is_directory t p" for t and s' :: state
        using that by (simp add: syncFile_def copy_file_def)
      have stamp: "\<exists>m. set_last_write_time r t p time = Inr (AList.update p (Dir time) t) \<and>
                      map_of t p = Some (Dir m)"
        if "is_directory t p" for t r
        using that by (auto simp: set_last_write_time_def is_directory_iff)
      show ?thesis
      proof (cases "needs_copy env (fs s) (fst e) c time")
        case (Inl err)
        with False File assms show ?thesis by (simp add: copy_entry_def)
      next
        case (Inr b)
        show ?thesis
        proof (cases b)
          case False
          with \<open>\<not> isIgnored env (path_string (fst e))\<close> File Inr assms show ?thesis
            by (simp add: copy_entry_def)
        next
          case yes: True
          show ?thesis
          proof (cases "create_directories (clock env) (dstRoot env) (fs s) (butlast (fst e))")
            case (Inl err)
            with False File Inr yes assms show ?thesis by (simp add: copy_entry_def)
          next
            case mk: (Inr t)
            from mk assms have dir: "is_directory t p"
              unfolding create_directories_def by (rule mkdirs_keeps_dir)
            from stamp [OF dir, of "dstRoot env"]
            have "set_last_write_time (dstRoot env) t p time = Inr (AList.update p (Dir time) t)"
              by auto
            with False File Inr yes mk True sync [OF dir, of s] show ?thesis
              by (simp add: copy_entry_def is_directory_iff update_conv')
          qed
        qed
      qed
    qed
  qed
qed

lemma settled_stable:
  assumes "settled env (fs s) e" and "fst e' \<noteq> fst e"
  shows "settled env (fs (state_of (copy_entry env e' s))) e"
proof -
  let ?t' = "fs (state_of (copy_entry env e' s))"
  have dirs: "list_all (is_directory ?t') qs" if "list_all (is_directory (fs s)) qs" for qs
    using that by (simp add: list_all_iff copy_entry_keeps_dir)
  have same: "map_of ?t' (fst e) = Some n" if "map_of (fs s) (fst e) = Some n" for n
    using copy_entry_other [OF assms(2), of env s] that by auto
  show ?thesis
  proof (cases "isIgnored env (path_string (fst e))")
    case True
    then show ?thesis by (simp add: settled_def)
  next
    case False
    show ?thesis
    proof (cases "snd e")
      case (Dir m)
      with assms(1) False dirs show ?thesis
        by (simp add: settled_def)
    next
      case (File c time)
      with assms(1) False obtain n where n: "map_of (fs s) (fst e) = Some n"
        by (auto simp: settled_def split: option.splits)
      with assms(1) False File same [OF n] dirs show ?thesis
        by (cases n) (auto simp: settled_def)
    qed
  qed
qed

lemma settled_quiet:
  assumes "settled env (fs s) e"
  shows "fs (state_of (copy_entry env e s)) = fs s \<and>
         (\<exists>ys. out (state_of (copy_entry env e s)) = out s @ ys \<and> \<not> list_ex is_action ys)"
proof (cases "isIgnored env (path_string (fst e))")
  case True
  then show ?thesis by (simp add: copy_entry_def)
next
  case False
  show ?thesis
  proof (cases "snd e")
    case (Dir m)
    with assms False have "mkdirs (clock env) (dstRoot env) (prefixes (fst e)) (fs s) = Inr (fs s)"
      by (intro mkdirs_noop) (simp add: settled_def list_all_iff)
    with False Dir show ?thesis
      by (simp add: copy_entry_def create_directories_def)
  next
    case (File c time)
    with assms False obtain n where n: "map_of (fs s) (fst e) = Some n"
      by (auto simp: settled_def split: option.splits)
    show ?thesis
    proof (cases n)
      case (Dir m)
      with assms False File n have "needs_copy env (fs s) (fst e) c time =
          Inl (Fs_error ''file_size'' (join (dstRoot env) (fst e)))"
        by (simp add: settled_def needs_copy_def)
      with False File show ?thesis
        by (simp add: copy_entry_def)
    next
      case old: (File c' time')
      with assms False File n have time: "time' = time"
        by (simp add: settled_def)
      show ?thesis
      proof (cases "length c' = length c")
        case True
        with n old time have "needs_copy env (fs s) (fst e) c time = Inr False"
          by (simp add: needs_copy_def)
        with False File show ?thesis
          by (simp add: copy_entry_def)
      next
        case differ: False
        with assms False File n old
        have fails: "copy_fails env (fst e)"
          and dirs: "\<forall>q \<in> set (prefixes (butlast (fst e))). is_directory (fs s) q"
          by (simp_all add: settled_def list_all_iff)
        from n old time differ have check: "needs_copy env (fs s) (fst e) c time = Inr True"
          by (auto simp: needs_copy_def)
        from dirs have mk: "create_directories (clock env) (dstRoot env) (fs s) (butlast (fst e))
                             = Inr (fs s)"
          unfolding create_directories_def by (rule mkdirs_noop)
        from fails have sync: "syncFile env (fst e) c time (s\<lparr>fs := fs s\<rparr>) =
            s\<lparr>out := out s @ [Cerr (ERROR (Fs_error ''copy_file'' (join (dstRoot env) (fst e))))]\<rparr>"
          by (simp add: syncFile_def copy_file_def)
        from n old time have stamp: "set_last_write_time (dstRoot env) (fs s) (fst e) time =
            Inr (fs s)"
          by (simp add: set_last_write_time_def update_triv)
        from False File check mk sync stamp show ?thesis
          by (simp add: copy_entry_def)
      qed
    qed
  qed
qed

lemma copy_entry_settles:
  assumes "copy_entry env e s = Returned s'" and "fst e \<noteq> []"
    and "\<forall>time time'. on_existing env time time' = Replace"
  shows "settled env (fs s') e"
proof (cases "isIgnored env (path_string (fst e))")
  case True
  then show ?thesis by (simp add: settled_def)
next
  case False
  show ?thesis
  proof (cases "snd e")
    case (Dir m)
    with assms(1) False
    have "mkdirs (clock env) (dstRoot env) (prefixes (fst e)) (fs s) = Inr (fs s')"
      by (auto simp: copy_entry_def create_directories_def split: sum.splits)
    then have "\<forall>q \<in> set (prefixes (fst e)). is_directory (fs s') q"
      by (auto dest: mkdirs_post)
    with Dir show ?thesis
      by (simp add: settled_def list_all_iff)
  next
    case (File c time)
    from assms(1) False File obtain b where check: "needs_copy env (fs s) (fst e) c time = Inr b"
      by (auto simp: copy_entry_def split: sum.splits)
    show ?thesis
    proof (cases b)
      case no: False
      with assms(1) \<open>\<not> isIgnored env (path_string (fst e))\<close> File check have "s' = s"
        by (simp add: copy_entry_def)
      moreover from check no
      have "\<exists>c'. map_of (fs s) (fst e) = Some (node.File c' time) \<and> length c' = length c"
        by (auto simp: needs_copy_def split: option.splits node.splits if_splits)
      ultimately show ?thesis
        using File by (auto simp: settled_def)
    next
      case yes: True
      with assms(1) False File check obtain t
        where mk: "create_directories (clock env) (dstRoot env) (fs s) (butlast (fst e)) = Inr t"
        by (auto simp: copy_entry_def split: sum.splits)
      define s1 where "s1 = syncFile env (fst e) c time (s\<lparr>fs := t\<rparr>)"
      from assms(1) False File check yes mk
      have stamp: "set_last_write_time (dstRoot env) (fs s1) (fst e) time = Inr (fs s')"
        by (auto simp: copy_entry_def s1_def [symmetric] split: sum.splits)
      from create_directories_parent [OF assms(2) mk]
      have parent: "is_directory t (butlast (fst e))"
        by simp
      from mk have dirs: "\<forall>q \<in> set (prefixes (butlast (fst e))). is_directory t q"
        unfolding create_directories_def by (auto dest: mkdirs_post)
      have above: "q \<noteq> fst e" if "q \<in> set (prefixes (butlast (fst e)))" for q
        using that not_prefix_butlast [OF assms(2)] by (auto simp: in_set_prefixes)
      show ?thesis
      proof (cases "copy_file env c time t (fst e)")
        case (Inr t2)
        then have "t2 = AList.update (fst e) (node.File c (clock env)) t"
          using assms(3)
          by (auto simp: copy_file_def split: if_splits option.splits node.splits)
        with Inr have "fs s1 = AList.update (fst e) (node.File c (clock env)) t"
          by (simp add: s1_def syncFile_def)
        with stamp have "fs s' = AList.update (fst e) (node.File c time) (fs s1)"
          by (auto simp: set_last_write_time_def update_conv')
        then have "map_of (fs s') (fst e) = Some (node.File c time)"
          by (simp add: update_conv')
        with File show ?thesis
          by (simp add: settled_def)
      next
        case (Inl err)
        then have s1: "fs s1 = t"
          by (simp add: s1_def syncFile_def)
        from stamp s1 obtain n where n: "map_of t (fst e) = Some n"
          by (auto simp: set_last_write_time_def split: option.splits)
        show ?thesis
        proof (cases n)
          case (Dir m)
          with stamp s1 n have "fs s' = AList.update (fst e) (node.Dir time) t"
            by (auto simp: set_last_write_time_def)
          then have "map_of (fs s') (fst e) = Some (node.Dir time)"
            by (simp add: update_conv')
          with File show ?thesis
            by (simp add: settled_def)
        next
          case old: (File c' time')
          with stamp s1 n have fs': "fs s' = AList.update (fst e) (node.File c' time) t"
            by (auto simp: set_last_write_time_def)
          from n old have "\<not> is_directory t (fst e)"
            by (simp add: is_directory_def)
          with Inl parent assms(3) have "copy_fails env (fst e)"
            by (auto simp: copy_file_def split: if_splits option.splits node.splits)
          moreover have "\<forall>q \<in> set (prefixes (butlast (fst e))). is_directory (fs s') q"
            using dirs above by (auto simp: fs' is_directory_iff update_conv')
          ultimately show ?thesis
            using File by (simp add: settled_def fs' update_conv' list_all_iff)
        qed
      qed
    qed
  qed
qed

lemma settled_stable_loop:
  assumes "settled env (fs s) e" and "fst e \<notin> fst ` set es"
  shows "settled env (fs (state_of (for_each (copy_entry env) es s))) e"
proof (rule for_each_invariant [where P = "\<lambda>s' :: state. settled env (fs s') e"])
  fix x and s' :: state
  assume x: "x \<in> set es" and inv: "settled env (fs s') e"
  from x assms(2) have "fst x \<noteq> fst e"
    by (metis imageI)
  with inv show "settled env (fs (state_of (copy_entry env x s'))) e"
    by (rule settled_stable)
qed (rule assms(1))

lemma copy_loop_settles:
  assumes "for_each (copy_entry env) es s = Returned s'" and "distinct (map fst es)"
    and "\<forall>e \<in> set es. fst e \<noteq> []"
    and "\<forall>time time'. on_existing env time time' = Replace"
  shows "\<forall>e \<in> set es. settled env (fs s') e"
  using assms
proof (induction es arbitrary: s)
  case Nil
  show ?case by simp
next
  case (Cons e es)
  from Cons.prems(1) obtain s1 where s1: "copy_entry env e s = Returned s1"
    and rest: "for_each (copy_entry env) es s1 = Returned s'"
    by (auto split: outcome.splits)
  from s1 Cons.prems(3,4) have "settled env (fs s1) e"
    by (intro copy_entry_settles) simp_all
  moreover from Cons.prems(2) have "fst e \<notin> fst ` set es"
    by simp
  ultimately have "settled env (fs (state_of (for_each (copy_entry env) es s1))) e"
    by (rule settled_stable_loop)
  with rest have "settled env (fs s') e"
    by simp
  moreover from Cons.IH [OF rest] Cons.prems have "\<forall>x \<in> set es. settled env (fs s') x"
    by simp
  ultimately show ?case
    by simp
qed

lemma copy_loop_quiet:
  assumes "\<forall>e \<in> set es. settled env (fs s) e"
  shows "fs (state_of (for_each (copy_entry env) es s)) = fs s \<and>
         (\<exists>ys. out (state_of (for_each (copy_entry env) es s)) = out s @ ys \<and>
               filter is_action ys = [])"
proof (rule for_each_invariant
    [where P = "\<lambda>s' :: state. fs s' = fs s \<and> (\<exists>ys. out s' = out s @ ys \<and> filter is_action ys = [])"])
  fix e and s' :: state
  assume e: "e \<in> set es"
    and inv: "fs s' = fs s \<and> (\<exists>ys. out s' = out s @ ys \<and> filter is_action ys = [])"
  then obtain ys where ys: "out s' = out s @ ys" "filter is_action ys = []"
    by blast
  from e assms inv have "settled env (fs s') e"
    by simp
  from settled_quiet [OF this] obtain zs
    where same: "fs (state_of (copy_entry env e s')) = fs s'"
      and zs: "out (state_of (copy_entry env e s')) = out s' @ zs" "\<not> list_ex is_action zs"
    by blast
  from zs(2) have "filter is_action zs = []"
    by (simp add: list_ex_iff filter_empty_conv)
  with ys zs(1) have "out (state_of (copy_entry env e s')) = out s @ (ys @ zs) \<and>
                      filter is_action (ys @ zs) = []"
    by simp
  with same inv
  show "fs (state_of (copy_entry env e s')) = fs s \<and>
        (\<exists>ys. out (state_of (copy_entry env e s')) = out s @ ys \<and> filter is_action ys = [])"
    by (intro conjI exI [of _ "ys @ zs"]) simp_all
qed simp

lemma covered_iff:
  "covered env src t \<longleftrightarrow>
     (\<forall>p. fs_exists t p \<longrightarrow> p = [] \<or> isIgnored env (path_string p) \<or> fs_exists src p)"
  by (force simp: covered_def list_all_iff fs_exists_def map_of_eq_None_iff)

lemma covered_no_removals: "covered env src t \<Longrightarrow> collectRemovals env src t = []"
proof -
  assume "covered env src t"
  then have "p \<notin> set (collectRemovals env src t)" for p
    by (auto simp: collectRemovals_iff covered_iff fs_exists_def map_of_eq_None_iff)
  then show ?thesis
    by (cases "collectRemovals env src t") auto
qed

lemma copy_entry_covered:
  assumes "wf_tree src" and "e \<in> set (entries src)" and "covered env src (fs s)"
  shows "covered env src (fs (state_of (copy_entry env e s)))"
  unfolding covered_iff
proof (intro allI impI)
  fix p
  assume ex: "fs_exists (fs (state_of (copy_entry env e s))) p"
  from assms(2) have src_e: "fs_exists src (fst e)"
    by (auto simp: entries_def fs_exists_def map_of_eq_None_iff intro: rev_image_eqI)
  show "p = [] \<or> isIgnored env (path_string p) \<or> fs_exists src p"
  proof (cases "fst e = p")
    case True
    with src_e show ?thesis by simp
  next
    case False
    from copy_entry_other [OF False, of env s]
    show ?thesis
    proof
      assume "map_of (fs (state_of (copy_entry env e s))) p = map_of (fs s) p"
      with ex have "fs_exists (fs s) p"
        by (simp add: fs_exists_def)
      with assms(3) show ?thesis
        by (simp add: covered_iff)
    next
      assume "map_of (fs s) p = None \<and>
              map_of (fs (state_of (copy_entry env e s))) p = Some (Dir (clock env)) \<and>
              prefix p (fst e) \<and> \<not> isIgnored env (path_string (fst e))"
      then have "prefix p (fst e)"
        by simp
      with wf_tree_prefix [OF assms(1) src_e] show ?thesis
        by simp
    qed
  qed
qed

text \<open>
  With a library that replaces existing destination files: when a run of
  \<^verbatim>\<open>mirror\<close> has returned, a second run on its result, with the same source, the same
  rules and the same surroundings, changes nothing in the destination and prints no
  copy line and no deletion line.
\<close>

lemma second_run_idle:
  assumes "mirror env src s = Returned s1" and "wf_tree src"
    and "\<forall>time time'. on_existing env time time' = Replace"
  shows "fs (state_of (mirror env src s1)) = fs s1 \<and>
         (\<exists>ys. out (state_of (mirror env src s1)) = out s1 @ ys \<and> filter is_action ys = [])"
proof -
  from assms(1) obtain t0 s2
    where mk0: "create_directories (clock env) (dstRoot env) (fs s) [] = Inr t0"
      and del: "deletion_pass env src (s\<lparr>fs := t0\<rparr>) = Returned s2"
      and cp: "copy_pass env src s2 = Returned s1"
    by (auto simp: mirror_def split: sum.splits outcome.splits)
  from cp have src_root: "is_directory src []"
    and loop: "for_each (copy_entry env) (entries src) s2 = Returned s1"
    by (auto simp: copy_pass_def split: if_splits)
  from mk0 have "is_directory t0 []"
    unfolding create_directories_def by (rule mkdirs_post) simp
  moreover have "map_of (fs (state_of (deletion_pass env src (s\<lparr>fs := t0\<rparr>)))) [] = map_of t0 []"
    using deletion_pass_other [of "[]" env src "s\<lparr>fs := t0\<rparr>"]
    by (simp add: collectRemovals_iff)
  ultimately have "is_directory (fs s2) []"
    using del by (simp add: is_directory_def)
  then have "is_directory (fs (state_of (for_each (copy_entry env) (entries src) s2))) []"
    by (intro for_each_invariant [where P = "\<lambda>s' :: state. is_directory (fs s') []"])
       (simp_all add: copy_entry_keeps_dir)
  with loop have dst_root: "is_directory (fs s1) []"
    by simp
  from del have "fs s2 = filter (\<lambda>e. fst e \<notin> set (collectRemovals env src t0)) t0"
    by (simp add: deletion_pass_def remove_all_result set_sort_descending)
  then have "covered env src (fs s2)"
    by (auto simp: covered_def list_all_iff collectRemovals_iff)
  then have "covered env src (fs (state_of (for_each (copy_entry env) (entries src) s2)))"
    using assms(2)
    by (intro for_each_invariant [where P = "\<lambda>s' :: state. covered env src (fs s')"])
       (simp_all add: copy_entry_covered)
  with loop have "collectRemovals env src (fs s1) = []"
    by (simp add: covered_no_removals)
  moreover from assms(2) have "distinct (map fst (entries src))"
    by (simp add: wf_tree_def entries_def distinct_map_filter)
  with loop have "\<forall>e \<in> set (entries src). settled env (fs s1) e"
    by (rule copy_loop_settles) (simp_all add: entries_def assms(3))
  note quiet = copy_loop_quiet [OF this]
  moreover from dst_root
  have "create_directories (clock env) (dstRoot env) (fs s1) [] = Inr (fs s1)"
    unfolding create_directories_def by (intro mkdirs_noop) simp
  ultimately have "mirror env src s1 = for_each (copy_entry env) (entries src) s1"
    using src_root
    by (simp add: mirror_def deletion_pass_def sort_descending_def copy_pass_def)
  with quiet show ?thesis
    by simp
qed

lemma second_run_idle_scenario:
  "mirror env_plain src_scenario \<lparr>fs = dst_scenario, out = []\<rparr> =
     Returned \<lparr>fs = dst_mirrored,
       out = [Cout (DEL_F ''D/old.txt''), Cout (COPY ''S/a.txt'' ''D/a.txt''),
              Cout (COPY ''S/sub/b.txt'' ''D/sub/b.txt'')]\<rparr> \<and>
   wf_tree src_scenario \<and>
   mirror env_plain src_scenario \<lparr>fs = dst_mirrored, out = []\<rparr> =
     Returned \<lparr>fs = dst_mirrored, out = []\<rparr>"
  using second_run_idle [of env_plain src_scenario "\<lparr>fs = dst_scenario, out = []\<rparr>"
      "\<lparr>fs = dst_mirrored,
        out = [Cout (DEL_F ''D/old.txt''), Cout (COPY ''S/a.txt'' ''D/a.txt''),
               Cout (COPY ''S/sub/b.txt'' ''D/sub/b.txt'')]\<rparr>"]
  by (simp add: env_plain_def never_fails_def always_replace_def src_scenario_def dst_scenario_def dst_mirrored_def
      wf_tree_def run_defs)


text \<open>
  C7. The second run is not idle with a library that lets \<^verbatim>\<open>update_existing\<close>
  prevail, as it may with the option pair that \<^verbatim>\<open>syncFile\<close> passes. The destination
  file is younger than its source and of another size. The first run returns: it
  reports a copy and sets the destination's time to the source's, but the library
  keeps the destination's content. The second run, on the result of the first and with
  nothing changed in the source, finds the sizes different and reports the copy
  again.
\<close>

theorem C7_second_run_copies_again:
  "mirror env_keeping src_longer \<lparr>fs = dst_younger, out = []\<rparr> =
     Returned \<lparr>fs = [([], Dir 1), ([''f.txt''], File ''old'' 5)],
       out = [Cout (COPY ''S/f.txt'' ''D/f.txt'')]\<rparr> \<and>
   mirror env_keeping src_longer
     \<lparr>fs = [([], Dir 1), ([''f.txt''], File ''old'' 5)], out = []\<rparr> =
     Returned \<lparr>fs = [([], Dir 1), ([''f.txt''], File ''old'' 5)],
       out = [Cout (COPY ''S/f.txt'' ''D/f.txt'')]\<rparr>"
  by (simp add: env_keeping_def never_fails_def keep_unless_newer_def src_longer_def
      dst_younger_def run_defs)

section \<open>Errors during a copy\<close>

text \<open>
  C5. A source with two files, an empty destination, and a copy of the first file that
  fails: \<^verbatim>\<open>syncFile\<close> catches the exception and reports it, but the call that sets the
  modification time of the destination comes after it, outside the handler, and throws
  because the destination file does not exist. The run ends there, and the second
  file, which is neither ignored nor failing, is never visited.
\<close>

theorem C5_copy_failure_aborts:
  "\<not> isIgnored env_fails (path_string [''g.txt'']) \<and> \<not> copy_fails env_fails [''g.txt''] \<and>
   mirror env_fails src_two \<lparr>fs = empty_root, out = []\<rparr> =
     Thrown (Fs_error ''last_write_time'' ''D/f.txt'')
       \<lparr>fs = empty_root, out = [Cerr (ERROR (Fs_error ''copy_file'' ''D/f.txt''))]\<rparr>"
  by (simp add: env_fails_def fails_f_def always_replace_def src_two_def empty_root_def run_defs)

text \<open>
  C6. The destination holds an older file of the same size and its copy fails. The
  failure is reported, and then the modification time of the destination is set to
  the source's all the same. The next run, in which no copy would fail, finds size and
  time equal and skips the file: the old content stays.
\<close>

theorem C6_failed_copy_marked_fresh:
  "mirror env_fails src_one \<lparr>fs = dst_old, out = []\<rparr> =
     Returned \<lparr>fs = [([], Dir 1), ([''f.txt''], File ''old'' 5)],
       out = [Cerr (ERROR (Fs_error ''copy_file'' ''D/f.txt''))]\<rparr> \<and>
   mirror env_plain src_one \<lparr>fs = [([], Dir 1), ([''f.txt''], File ''old'' 5)], out = []\<rparr> =
     Returned \<lparr>fs = [([], Dir 1), ([''f.txt''], File ''old'' 5)], out = []\<rparr>"
  by (simp add: env_fails_def env_plain_def never_fails_def always_replace_def fails_f_def src_one_def dst_old_def
      run_defs)


section \<open>The program\<close>

text \<open>
  C9. With fewer than two directory arguments the program prints the usage line on
  the error stream, touches nothing and returns the status 1, which is not zero. With
  both, it returns the status 0 exactly when the run of \<^verbatim>\<open>mirror\<close> returns, and then
  the completion line is the last thing printed.
\<close>

theorem C9_exit_status:
  "(length argv < 3 \<longrightarrow>
      fst (main env argv rules_file src s) = Exit 1 \<and> Exit 1 \<noteq> Exit 0 \<and>
      snd (main env argv rules_file src s) =
        s\<lparr>out := out s @ [Cerr (USAGE (case argv of [] \<Rightarrow> [] | a # _ \<Rightarrow> a))]\<rparr>) \<and>
   (3 \<le> length argv \<longrightarrow>
      (\<forall>s'. mirror (main_env env argv rules_file) src s = Returned s' \<longrightarrow>
         main env argv rules_file src s = (Exit 0, s'\<lparr>out := out s' @ [Cout FINISHED]\<rparr>)) \<and>
      (fst (main env argv rules_file src s) = Exit 0 \<longleftrightarrow>
         (\<exists>s'. mirror (main_env env argv rules_file) src s = Returned s')))"
  by (auto simp: main_def split: outcome.splits)

theorem C9_exit_status_witness:
  "main env_plain [''sync'', ''S''] None src_scenario \<lparr>fs = dst_scenario, out = []\<rparr> =
     (Exit 1, \<lparr>fs = dst_scenario, out = [Cerr (USAGE ''sync'')]\<rparr>) \<and>
   main env_plain [''sync'', ''S'', ''D''] None src_scenario \<lparr>fs = dst_scenario, out = []\<rparr> =
     (Exit 0,
      \<lparr>fs = [([], Dir 1), ([''a.txt''], File ''1'' 11), ([''sub''], Dir 100),
             ([''sub'', ''b.txt''], File ''bb'' 12)],
       out = [Cout (DEL_F ''D/old.txt''), Cout (COPY ''S/a.txt'' ''D/a.txt''),
              Cout (COPY ''S/sub/b.txt'' ''D/sub/b.txt''), Cout FINISHED]\<rparr>)"
  using C9_exit_status [of "[''sync'', ''S'']" env_plain None src_scenario
      "\<lparr>fs = dst_scenario, out = []\<rparr>"]
    C9_exit_status [of "[''sync'', ''S'', ''D'']" env_plain None src_scenario
      "\<lparr>fs = dst_scenario, out = []\<rparr>"]
  by (simp add: main_def main_env_def load_rules_def env_plain_def never_fails_def always_replace_def
      src_scenario_def dst_scenario_def run_defs)


end
